theory Spec2Isabelle
  imports Complex_Main
begin

section \<open>Python string primitives\<close>

text \<open>
  A Python \<open>str\<close> is a sequence of Unicode code points, and \<open>len\<close> counts them. It is
  modelled as the list of its code points, each a natural number; \<open>lit\<close> is the string
  of a literal of the source. The character tables are those of Unicode 14.0, which
  CPython 3.11 carries.
\<close>

type_synonym ustring = "nat list"

definition lit :: "string \<Rightarrow> ustring" where
  "lit s = map of_char s"

lemma lit_simps [simp]: "lit [] = []" "lit (c # cs) = of_char c # lit cs"
  by (simp_all add: lit_def)

definition decimal_zeros :: "nat list" where
  \<comment> \<open>the digit zero of every script: the ten decimal digits of a script are consecutive\<close>
  "decimal_zeros =
    [0x30, 0x660, 0x6F0, 0x7C0, 0x966, 0x9E6, 0xA66, 0xAE6, 0xB66, 0xBE6, 0xC66, 0xCE6,
     0xD66, 0xDE6, 0xE50, 0xED0, 0xF20, 0x1040, 0x1090, 0x17E0, 0x1810, 0x1946, 0x19D0,
     0x1A80, 0x1A90, 0x1B50, 0x1BB0, 0x1C40, 0x1C50, 0xA620, 0xA8D0, 0xA900, 0xA9D0,
     0xA9F0, 0xAA50, 0xABF0, 0xFF10, 0x104A0, 0x10D30, 0x11066, 0x110F0, 0x11136, 0x111D0,
     0x112F0, 0x11450, 0x114D0, 0x11650, 0x116C0, 0x11730, 0x118E0, 0x11950, 0x11C50,
     0x11D50, 0x11DA0, 0x16A60, 0x16AC0, 0x16B50, 0x1D7CE, 0x1D7D8, 0x1D7E2, 0x1D7EC,
     0x1D7F6, 0x1E140, 0x1E2F0, 0x1E950, 0x1FBF0]"

definition decimal_of :: "nat \<Rightarrow> nat option" where
  \<comment> \<open>the decimal value of a code point, for the code points that have one\<close>
  "decimal_of c = map_option (\<lambda>z. c - z) (find (\<lambda>z. z \<le> c \<and> c < z + 10) decimal_zeros)"

definition is_decimal :: "nat \<Rightarrow> bool" where
  \<comment> \<open>a decimal digit of any script: what \<open>int\<close> accepts and what the pattern \<open>\\D\<close> rejects\<close>
  "is_decimal c = (decimal_of c \<noteq> None)"

definition digit_val :: "nat \<Rightarrow> int" where
  "digit_val c = (case decimal_of c of None \<Rightarrow> 0 | Some d \<Rightarrow> int d)"

definition is_space :: "nat \<Rightarrow> bool" where
  \<comment> \<open>\<open>str.isspace\<close> on one character: the characters removed by \<open>strip\<close>\<close>
  "is_space c = (c \<in> set
    [0x9, 0xA, 0xB, 0xC, 0xD, 0x1C, 0x1D, 0x1E, 0x1F, 0x20, 0x85, 0xA0, 0x1680, 0x2000,
     0x2001, 0x2002, 0x2003, 0x2004, 0x2005, 0x2006, 0x2007, 0x2008, 0x2009, 0x200A,
     0x2028, 0x2029, 0x202F, 0x205F, 0x3000])"

definition int_space :: "nat \<Rightarrow> bool" where
  \<comment> \<open>the characters that \<open>int\<close> drops at both ends: it does not take the four
      separators \<open>0x1C\<close> to \<open>0x1F\<close> for whitespace\<close>
  "int_space c = (is_space c \<and> (c < 0x1C \<or> 0x1F < c))"

definition other_digits :: "(nat \<times> nat) list" where
  \<comment> \<open>the ranges of the digits that are not decimal: superscripts, subscripts, circled
      digits and the like\<close>
  "other_digits =
    [(0xB2, 0xB3), (0xB9, 0xB9), (0x1369, 0x1371), (0x19DA, 0x19DA), (0x2070, 0x2070),
     (0x2074, 0x2079), (0x2080, 0x2089), (0x2460, 0x2468), (0x2474, 0x247C),
     (0x2488, 0x2490), (0x24EA, 0x24EA), (0x24F5, 0x24FD), (0x24FF, 0x24FF),
     (0x2776, 0x277E), (0x2780, 0x2788), (0x278A, 0x2792), (0x10A40, 0x10A43),
     (0x10E60, 0x10E68), (0x11052, 0x1105A), (0x1F100, 0x1F10A)]"

definition isdigit_char :: "nat \<Rightarrow> bool" where
  \<comment> \<open>\<open>str.isdigit\<close> on one character\<close>
  "isdigit_char c = (is_decimal c \<or> list_ex (\<lambda>(lo, hi). lo \<le> c \<and> c \<le> hi) other_digits)"

definition isdigit :: "ustring \<Rightarrow> bool" where
  "isdigit s = (s \<noteq> [] \<and> list_all isdigit_char s)"

definition ascii_lower :: "nat \<Rightarrow> nat" where
  "ascii_lower c = (if 0x41 \<le> c \<and> c \<le> 0x5A then c + 0x20 else c)"

definition lower_is :: "ustring \<Rightarrow> ustring \<Rightarrow> bool" where
  \<comment> \<open>\<open>s.lower() == t\<close> for a literal \<open>t\<close> made of the letters d, n, r and x: of all code
      points only the capitals D, N, R and X have one of these letters in their lower case,
      and no code point has an empty one, so the test is that of the ASCII letters\<close>
  "lower_is s t = (map ascii_lower s = t)"

definition strip :: "ustring \<Rightarrow> ustring" where
  "strip s = rev (dropWhile is_space (rev (dropWhile is_space s)))"

fun split_on :: "nat \<Rightarrow> ustring \<Rightarrow> ustring list" where
  "split_on sep [] = [[]]"
| "split_on sep (c # cs) =
     (if c = sep then [] # split_on sep cs
      else (case split_on sep cs of
              [] \<Rightarrow> [[c]]
            | p # ps \<Rightarrow> (c # p) # ps))"

definition zfill :: "nat \<Rightarrow> ustring \<Rightarrow> ustring" where
  \<comment> \<open>\<open>str.zfill\<close>: the zeros go after a leading sign\<close>
  "zfill w s =
     (if w \<le> length s then s
      else (case s of
              [] \<Rightarrow> replicate w (of_char CHR ''0'')
            | c # cs \<Rightarrow>
                if c = of_char CHR ''+'' \<or> c = of_char CHR ''-''
                then c # replicate (w - length s) (of_char CHR ''0'') @ cs
                else replicate (w - length s) (of_char CHR ''0'') @ s))"

text \<open>
  \<open>int(s)\<close> in base 10: whitespace at both ends is dropped, one sign is allowed, then
  decimal digits of any script, where single underscores may stand between two digits.
  \<open>None\<close> is the \<open>ValueError\<close>. (The interpreter's limit on the number of digits of a
  literal is not modelled.)
\<close>

fun int_digits :: "int \<Rightarrow> ustring \<Rightarrow> int option" where
  "int_digits acc [] = Some acc"
| "int_digits acc [c] = (if is_decimal c then Some (acc * 10 + digit_val c) else None)"
| "int_digits acc (c # d # ds) =
     (if is_decimal c then int_digits (acc * 10 + digit_val c) (d # ds)
      else if c = of_char CHR ''_'' \<and> is_decimal d then int_digits (acc * 10 + digit_val d) ds
      else None)"

definition int_unsigned :: "ustring \<Rightarrow> int option" where
  "int_unsigned s =
     (case s of
        [] \<Rightarrow> None
      | c # cs \<Rightarrow> if is_decimal c then int_digits (digit_val c) cs else None)"

definition int_strip :: "ustring \<Rightarrow> ustring" where
  "int_strip s = rev (dropWhile int_space (rev (dropWhile int_space s)))"

definition py_int :: "ustring \<Rightarrow> int option" where
  "py_int s =
     (case int_strip s of
        [] \<Rightarrow> None
      | c # cs \<Rightarrow>
          if c = of_char CHR ''+'' then int_unsigned cs
          else if c = of_char CHR ''-'' then map_option uminus (int_unsigned cs)
          else int_unsigned (c # cs))"

text \<open>\<open>str(n)\<close> for an integer.\<close>

fun str_nat :: "nat \<Rightarrow> ustring" where
  "str_nat n =
     (if n < 10 then [of_char CHR ''0'' + n]
      else str_nat (n div 10) @ [of_char CHR ''0'' + n mod 10])"

declare str_nat.simps [simp del]

definition str_int :: "int \<Rightarrow> ustring" where
  "str_int i =
     (if i < 0 then of_char CHR ''-'' # str_nat (nat (- i)) else str_nat (nat i))"

lemma str_nat_nonempty: "str_nat n \<noteq> []"
  by (subst str_nat.simps) simp

lemma str_int_nonempty: "str_int i \<noteq> []"
  by (simp add: str_int_def str_nat_nonempty)

section \<open>Luhn check\<close>

text \<open>
  The body of \<open>luhn_check\<close> inside its \<open>try\<close>: the loop over \<open>enumerate(card_number)\<close>,
  with \<open>None\<close> for the exception that \<open>int(digit)\<close> raises.
\<close>

fun luhn_loop :: "nat \<Rightarrow> nat \<Rightarrow> int \<Rightarrow> ustring \<Rightarrow> int option" where
  "luhn_loop parity i tot [] = Some tot"
| "luhn_loop parity i tot (digit # rest) =
     (case py_int [digit] of
        None \<Rightarrow> None
      | Some d \<Rightarrow>
          luhn_loop parity (Suc i)
            (tot + (if i mod 2 = parity then (if d * 2 > 9 then d * 2 - 9 else d * 2) else d))
            rest)"

definition luhn_check :: "ustring \<Rightarrow> bool" where
  \<comment> \<open>the bare \<open>except\<close> turns every exception into \<open>False\<close>\<close>
  "luhn_check card_number =
     (case luhn_loop (length card_number mod 2) 0 0 card_number of
        None \<Rightarrow> False
      | Some tot \<Rightarrow> tot mod 10 = 0)"

section \<open>Rate limiter\<close>

text \<open>
  \<open>request_counts\<close> is a \<open>defaultdict(list)\<close>: a map from client address to the list of
  request times, where a missing key reads as the empty list. \<open>time.time()\<close> is the
  argument \<open>now\<close>.
\<close>

type_synonym rate_state = "string \<rightharpoonup> real list"

definition RATE_LIMIT :: nat where
  "RATE_LIMIT = 100"

definition RATE_WINDOW :: real where
  "RATE_WINDOW = 3600"

definition counts_of :: "rate_state \<Rightarrow> string \<Rightarrow> real list" where
  "counts_of request_counts ip = (case request_counts ip of None \<Rightarrow> [] | Some ts \<Rightarrow> ts)"

definition check_rate_limit :: "string \<Rightarrow> real \<Rightarrow> rate_state \<Rightarrow> bool \<times> rate_state" where
  "check_rate_limit ip now request_counts =
     (let kept = filter (\<lambda>req_time. now - req_time < RATE_WINDOW) (counts_of request_counts ip);
          pruned = request_counts(ip \<mapsto> kept)
      in if RATE_LIMIT \<le> length kept then (False, pruned)
         else (True, pruned(ip \<mapsto> kept @ [now])))"

text \<open>A run of calls by one client, at the given times, and the answers in order.\<close>

fun admit_all :: "string \<Rightarrow> real list \<Rightarrow> rate_state \<Rightarrow> bool list \<times> rate_state" where
  "admit_all ip [] request_counts = ([], request_counts)"
| "admit_all ip (now # later) request_counts =
     (case check_rate_limit ip now request_counts of
        (ok, rc) \<Rightarrow> (case admit_all ip later rc of (oks, rc') \<Rightarrow> (ok # oks, rc')))"

fun within_window :: "real list \<Rightarrow> bool" where
  \<comment> \<open>no call comes \<open>RATE_WINDOW\<close> or more after an earlier one\<close>
  "within_window [] = True"
| "within_window (t # ts) = (list_all (\<lambda>u. u - t < RATE_WINDOW) ts \<and> within_window ts)"

section \<open>Card format\<close>

record card_record =
  card_number :: ustring
  month :: ustring
  year :: ustring
  cvv :: ustring
  original :: ustring

text \<open>
  \<open>validate_card_format\<close> returns the pair (record, None) or (None, message); here
  \<open>Inr\<close> the record and \<open>Inl\<close> the message. \<open>datetime.now().year\<close> is the argument
  \<open>current_year\<close>. Each bare \<open>except\<close> is the \<open>None\<close> branch of its \<open>int\<close>.
\<close>

definition parts :: "ustring \<Rightarrow> ustring list" where
  \<comment> \<open>\<open>[p.strip() for p in card_data.split('|')]\<close>\<close>
  "parts card_data = map strip (split_on (of_char CHR ''|'') card_data)"

definition validate_card_format :: "int \<Rightarrow> ustring \<Rightarrow> string + card_record" where
  "validate_card_format current_year card_data =
     (if length (parts card_data) < 4 then Inl ''Invalid format''
      else
        let number = filter is_decimal (parts card_data ! 0);
            mm = zfill 2 (parts card_data ! 1);
            yy = parts card_data ! 2;
            cv = parts card_data ! 3
        in if length number < 13 \<or> length number > 19 then Inl ''Invalid card number length''
           else
             (case py_int mm of
                None \<Rightarrow> Inl ''Invalid month format''
              | Some month_int \<Rightarrow>
                  if month_int < 1 \<or> month_int > 12 then Inl ''Invalid month''
                  else
                    let yyyy = (if length yy = 2 then lit ''20'' @ yy else yy)
                    in (case py_int yyyy of
                          None \<Rightarrow> Inl ''Invalid year format''
                        | Some year_int \<Rightarrow>
                            if year_int < current_year \<or> length yyyy \<noteq> 4
                            then Inl ''Invalid or expired year''
                            else if length cv < 3 \<or> length cv > 4 \<or> \<not> isdigit cv
                            then Inl ''Invalid CVV''
                            else Inr \<lparr>card_number = number, month = mm, year = yyyy,
                                      cvv = cv, original = card_data\<rparr>)))"

section \<open>Request handlers\<close>

text \<open>
  A handler takes the client address, the clock, the JSON fields of the body and the
  rate limiter's state, and returns the response with the new state. \<open>Http200\<close> carries
  the body of a success, \<open>HttpError\<close> the status and the message of an error response,
  and \<open>ServerError\<close> is an exception that leaves the handler.
\<close>

datatype 'a http = Http200 'a | HttpError nat string | ServerError

record validation_result =
  status :: string
  message :: string
  echoed :: ustring  \<comment> \<open>the key \<open>original\<close> of the response\<close>

definition classify :: "int \<Rightarrow> ustring \<Rightarrow> validation_result" where
  \<comment> \<open>what both validation handlers build for one card\<close>
  "classify current_year card_data =
     (case validate_card_format current_year card_data of
        Inl error \<Rightarrow> \<lparr>status = ''unknown'', message = error, echoed = card_data\<rparr>
      | Inr validated \<Rightarrow>
          let is_valid = luhn_check (card_number validated)
          in \<lparr>status = (if is_valid then ''live'' else ''dead''),
              message = (if is_valid then ''Valid card'' else ''Invalid card''),
              echoed = card_data\<rparr>)"

definition validate_card ::
  "string \<Rightarrow> real \<Rightarrow> int \<Rightarrow> ustring \<Rightarrow> rate_state \<Rightarrow> validation_result http \<times> rate_state" where
  "validate_card client_ip now current_year card_data request_counts =
     (case check_rate_limit client_ip now request_counts of
        (False, rc) \<Rightarrow> (HttpError 429 ''Rate limit exceeded. Please try again later.'', rc)
      | (True, rc) \<Rightarrow>
          if card_data = [] then (HttpError 400 ''No card data provided'', rc)
          else (Http200 (classify current_year card_data), rc))"

fun batch_loop :: "int \<Rightarrow> validation_result list \<Rightarrow> ustring list \<Rightarrow> validation_result list" where
  \<comment> \<open>\<open>for card_data in cards: results.append(...)\<close>\<close>
  "batch_loop current_year results [] = results"
| "batch_loop current_year results (card_data # cards) =
     batch_loop current_year (results @ [classify current_year card_data]) cards"

definition validate_batch ::
  "string \<Rightarrow> real \<Rightarrow> int \<Rightarrow> ustring list \<Rightarrow> rate_state
     \<Rightarrow> validation_result list http \<times> rate_state" where
  "validate_batch client_ip now current_year cards request_counts =
     (case check_rate_limit client_ip now request_counts of
        (False, rc) \<Rightarrow> (HttpError 429 ''Rate limit exceeded. Please try again later.'', rc)
      | (True, rc) \<Rightarrow>
          if cards = [] \<or> length cards > 100 then (HttpError 400 ''Invalid batch size (max 100)'', rc)
          else (Http200 (batch_loop current_year [] cards), rc))"

section \<open>Card generator\<close>

text \<open>
  The random source is a sequence \<open>rng\<close> of natural numbers and a position in it:
  \<open>random.randint(a, b)\<close> reads one element and moves on.
\<close>

definition randint :: "(nat \<Rightarrow> nat) \<Rightarrow> int \<Rightarrow> int \<Rightarrow> nat \<Rightarrow> int \<times> nat" where
  "randint rng a b k = (a + int (rng k mod nat (b - a + 1)), Suc k)"

fun replace_x :: "(nat \<Rightarrow> nat) \<Rightarrow> ustring \<Rightarrow> ustring \<Rightarrow> nat \<Rightarrow> ustring \<times> nat" where
  \<comment> \<open>\<open>for char in bin_pattern\<close>\<close>
  "replace_x rng card_num [] k = (card_num, k)"
| "replace_x rng card_num (c # cs) k =
     (if lower_is [c] (lit ''x'')
      then replace_x rng (card_num @ str_int (fst (randint rng 0 9 k))) cs (snd (randint rng 0 9 k))
      else replace_x rng (card_num @ [c]) cs k)"

function fill15 :: "(nat \<Rightarrow> nat) \<Rightarrow> ustring \<Rightarrow> nat \<Rightarrow> ustring \<times> nat" where
  \<comment> \<open>\<open>while len(card_num) < 15\<close>\<close>
  "fill15 rng card_num k =
     (if length card_num < 15
      then fill15 rng (card_num @ str_int (fst (randint rng 0 9 k))) (snd (randint rng 0 9 k))
      else (card_num, k))"
  by pat_completeness auto
termination
proof (relation "measure (\<lambda>(rng, card_num, k). 15 - length card_num)")
  show "wf (measure (\<lambda>(rng, card_num, k). 15 - length card_num))"
    by simp
next
  fix rng :: "nat \<Rightarrow> nat" and card_num :: ustring and k :: nat
  assume short: "length card_num < 15"
  have "str_int (fst (randint rng 0 9 k)) \<noteq> []"
    by (rule str_int_nonempty)
  then have "0 < length (str_int (fst (randint rng 0 9 k)))"
    by simp
  with short
  show "((rng, card_num @ str_int (fst (randint rng 0 9 k)), snd (randint rng 0 9 k)),
         (rng, card_num, k)) \<in> measure (\<lambda>(rng, card_num, k). 15 - length card_num)"
    by (simp del: length_greater_0_conv)
qed

declare fill15.simps [simp del]

fun check_total :: "nat \<Rightarrow> int \<Rightarrow> ustring \<Rightarrow> int option" where
  \<comment> \<open>the loop that sums for the check digit; \<open>None\<close> when \<open>int(digit)\<close> raises\<close>
  "check_total i tot [] = Some tot"
| "check_total i tot (digit # rest) =
     (case py_int [digit] of
        None \<Rightarrow> None
      | Some d \<Rightarrow>
          check_total (Suc i)
            (tot + (if i mod 2 = 0 then (if d * 2 > 9 then d * 2 - 9 else d * 2) else d))
            rest)"

definition gen_card_num :: "(nat \<Rightarrow> nat) \<Rightarrow> ustring \<Rightarrow> nat \<Rightarrow> (ustring \<times> nat) option" where
  "gen_card_num rng bin_pattern k =
     (case replace_x rng [] bin_pattern k of
        (replaced, k1) \<Rightarrow>
          (case fill15 rng replaced k1 of
             (card_num, k2) \<Rightarrow>
               (case check_total 0 0 card_num of
                  None \<Rightarrow> None
                | Some tot \<Rightarrow> Some (card_num @ str_int ((tot * 9) mod 10), k2))))"

definition gen_month :: "(nat \<Rightarrow> nat) \<Rightarrow> ustring \<Rightarrow> nat \<Rightarrow> ustring \<times> nat" where
  "gen_month rng month_arg k =
     (if lower_is month_arg (lit ''rnd'')
      then (zfill 2 (str_int (fst (randint rng 1 12 k))), snd (randint rng 1 12 k))
      else (zfill 2 month_arg, k))"

definition gen_year :: "(nat \<Rightarrow> nat) \<Rightarrow> int \<Rightarrow> ustring \<Rightarrow> nat \<Rightarrow> ustring \<times> nat" where
  "gen_year rng current_year year_arg k =
     (if lower_is year_arg (lit ''rnd'')
      then (str_int (fst (randint rng (current_year + 1) (current_year + 7) k)),
            snd (randint rng (current_year + 1) (current_year + 7) k))
      else (if length year_arg = 4 then year_arg else lit ''20'' @ year_arg, k))"

definition gen_cvv :: "(nat \<Rightarrow> nat) \<Rightarrow> ustring \<Rightarrow> nat \<Rightarrow> ustring \<times> nat" where
  "gen_cvv rng cvv_arg k =
     (if lower_is cvv_arg (lit ''rnd'')
      then (str_int (fst (randint rng 100 999 k)), snd (randint rng 100 999 k))
      else (zfill 3 cvv_arg, k))"

definition gen_one ::
  "(nat \<Rightarrow> nat) \<Rightarrow> int \<Rightarrow> ustring \<Rightarrow> ustring \<Rightarrow> ustring \<Rightarrow> ustring \<Rightarrow> nat
     \<Rightarrow> (ustring \<times> nat) option" where
  \<comment> \<open>one round of \<open>for _ in range(quantity)\<close>: the line appended to \<open>generated\<close>\<close>
  "gen_one rng current_year bin_pattern month_arg year_arg cvv_arg k =
     (case gen_card_num rng bin_pattern k of
        None \<Rightarrow> None
      | Some (card_num, k1) \<Rightarrow>
          (case gen_month rng month_arg k1 of
             (final_month, k2) \<Rightarrow>
               (case gen_year rng current_year year_arg k2 of
                  (final_year, k3) \<Rightarrow>
                    (case gen_cvv rng cvv_arg k3 of
                       (final_cvv, k4) \<Rightarrow>
                         Some (card_num @ lit ''|'' @ final_month @ lit ''|'' @ final_year @ lit ''|''
                                 @ final_cvv, k4)))))"

fun gen_loop ::
  "(nat \<Rightarrow> nat) \<Rightarrow> int \<Rightarrow> ustring \<Rightarrow> ustring \<Rightarrow> ustring \<Rightarrow> ustring \<Rightarrow> nat
     \<Rightarrow> ustring list \<Rightarrow> nat \<Rightarrow> (ustring list \<times> nat) option" where
  "gen_loop rng current_year bin_pattern month_arg year_arg cvv_arg 0 generated k =
     Some (generated, k)"
| "gen_loop rng current_year bin_pattern month_arg year_arg cvv_arg (Suc n) generated k =
     (case gen_one rng current_year bin_pattern month_arg year_arg cvv_arg k of
        None \<Rightarrow> None
      | Some (line, k') \<Rightarrow>
          gen_loop rng current_year bin_pattern month_arg year_arg cvv_arg n (generated @ [line]) k')"

definition generate_cards ::
  "string \<Rightarrow> real \<Rightarrow> int \<Rightarrow> (nat \<Rightarrow> nat) \<Rightarrow> ustring \<Rightarrow> int \<Rightarrow> ustring \<Rightarrow> ustring
     \<Rightarrow> ustring \<Rightarrow> rate_state \<times> nat \<Rightarrow> ustring list http \<times> rate_state \<times> nat" where
  "generate_cards client_ip now current_year rng bin_pattern quantity month_arg year_arg cvv_arg st =
     (case check_rate_limit client_ip now (fst st) of
        (False, rc) \<Rightarrow>
          (HttpError 429 ''Rate limit exceeded. Please try again later.'', rc, snd st)
      | (True, rc) \<Rightarrow>
          if bin_pattern = [] \<or> length bin_pattern < 6
          then (HttpError 400 ''Invalid BIN'', rc, snd st)
          else if quantity < 1 \<or> quantity > 10000
          then (HttpError 400 ''Invalid quantity (1-10000)'', rc, snd st)
          else
            (case gen_loop rng current_year bin_pattern month_arg year_arg cvv_arg
                    (nat quantity) [] (snd st) of
               None \<Rightarrow> (ServerError, rc, snd st)
             | Some (generated, k) \<Rightarrow> (Http200 generated, rc, k)))"

section \<open>Facts about the primitives\<close>

lemma decimal_of_ascii:
  "c < 128 \<Longrightarrow> decimal_of c = (if 48 \<le> c \<and> c \<le> 57 then Some (c - 48) else None)"
  by (simp add: decimal_of_def decimal_zeros_def)

lemma is_decimal_ascii: "c < 128 \<Longrightarrow> is_decimal c = (48 \<le> c \<and> c \<le> 57)"
  by (simp add: is_decimal_def decimal_of_ascii)

lemma digit_val_ascii: "48 \<le> c \<Longrightarrow> c \<le> 57 \<Longrightarrow> digit_val c = int c - 48"
  by (simp add: digit_val_def decimal_of_ascii)

lemma decimal_of_bound: "decimal_of c = Some d \<Longrightarrow> d \<le> 9"
  by (auto simp: decimal_of_def find_Some_iff)

lemma digit_val_bounds: "is_decimal c \<Longrightarrow> 0 \<le> digit_val c \<and> digit_val c \<le> 9"
  by (auto simp: is_decimal_def digit_val_def dest: decimal_of_bound)

lemma is_decimal_not_space: "is_decimal c \<Longrightarrow> \<not> is_space c"
  by (auto simp: is_space_def is_decimal_def decimal_of_def decimal_zeros_def)

lemma is_decimal_not_sign:
  "is_decimal c \<Longrightarrow> c \<noteq> of_char CHR ''+'' \<and> c \<noteq> of_char CHR ''-'' \<and> c \<noteq> of_char CHR ''_''"
  by (auto simp: is_decimal_ascii)

lemma int_strip_single: "int_strip [c] = (if int_space c then [] else [c])"
  by (simp add: int_strip_def)

lemma py_int_single:
  "py_int [c] = (if is_decimal c then Some (digit_val c) else None)"
proof (cases "is_decimal c")
  case True
  then have "\<not> int_space c"
    by (simp add: int_space_def is_decimal_not_space)
  with True is_decimal_not_sign [OF True] show ?thesis
    by (simp add: py_int_def int_strip_single int_unsigned_def)
next
  case False
  then show ?thesis
    by (simp add: py_int_def int_strip_single int_unsigned_def)
qed

lemma luhn_loop_non_digit:
  "\<exists>c \<in> set s. \<not> is_decimal c \<Longrightarrow> luhn_loop parity i tot s = None"
proof (induction s arbitrary: i tot)
  case Nil
  then show ?case by simp
next
  case (Cons a s)
  show ?case
  proof (cases "is_decimal a")
    case True
    with Cons.prems have "\<exists>c \<in> set s. \<not> is_decimal c" by auto
    then show ?thesis using True by (simp add: py_int_single Cons.IH)
  next
    case False
    then show ?thesis by (simp add: py_int_single)
  qed
qed

section \<open>Known vectors\<close>

text \<open>
  C6: \<open>luhn_check\<close> accepts 4532015112830366 and rejects 1234567812345678.
\<close>

theorem luhn_known_vectors:
  "luhn_check (lit ''4532015112830366'') = True \<and>
   luhn_check (lit ''1234567812345678'') = False"
  by (simp add: luhn_check_def py_int_single is_decimal_ascii digit_val_ascii)

section \<open>Inputs that are empty or not all digits\<close>

text \<open>
  The empty string passes the check: the loop adds nothing and the sum 0 is a multiple of 10.
\<close>

theorem luhn_check_empty: "luhn_check [] = True"
  by (simp add: luhn_check_def)

text \<open>
  A decimal digit is one of any script, since that is what \<open>int\<close> reads: sixteen
  Arabic-Indic zeros pass the check, and so does 4532015112830366 written in fullwidth
  digits.
\<close>

lemma luhn_check_other_scripts:
  "luhn_check (map (\<lambda>c. c + 0x630) (lit ''0000000000000000'')) = True \<and>
   luhn_check (map (\<lambda>c. c + 0xFEE0) (lit ''4532015112830366'')) = True"
  by (simp add: luhn_check_def py_int_single is_decimal_def digit_val_def decimal_of_def
      decimal_zeros_def)

text \<open>
  C2, amended: on every string with at least one character that is not a decimal digit,
  of whatever script, \<open>luhn_check\<close> returns \<open>False\<close>. It is a total function, so it
  raises nowhere.
\<close>

theorem luhn_check_non_digit:
  assumes "\<exists>c \<in> set s. \<not> is_decimal c"
  shows "luhn_check s = False"
  using assms by (simp add: luhn_check_def luhn_loop_non_digit)

theorem luhn_check_non_digit_witness:
  "(\<exists>c \<in> set (lit ''4532-0151 1283''). \<not> is_decimal c) \<and>
   luhn_check (lit ''4532-0151 1283'') = False"
proof -
  have h: "\<exists>c \<in> set (lit ''4532-0151 1283''). \<not> is_decimal c"
    by (simp add: is_decimal_ascii)
  from h luhn_check_non_digit [OF h] show ?thesis by simp
qed

section \<open>The rate limiter over a window\<close>

lemma within_window_append:
  "within_window (xs @ ys) \<longleftrightarrow>
     within_window xs \<and> within_window ys \<and> (\<forall>x \<in> set xs. \<forall>y \<in> set ys. y - x < RATE_WINDOW)"
  by (induction xs) (auto simp: list_all_iff)

lemma check_rate_limit_admit:
  assumes "counts_of rc ip = old" "\<forall>r \<in> set old. now - r < RATE_WINDOW" "length old < RATE_LIMIT"
  shows "check_rate_limit ip now rc = (True, rc(ip \<mapsto> old @ [now]))"
  using assms by (simp add: check_rate_limit_def Let_def)

lemma admit_all_within:
  assumes "counts_of rc ip = old" "within_window (old @ ts)" "length old + length ts \<le> RATE_LIMIT"
  shows "fst (admit_all ip ts rc) = replicate (length ts) True \<and>
         counts_of (snd (admit_all ip ts rc)) ip = old @ ts"
  using assms
proof (induction ts arbitrary: rc old)
  case Nil
  then show ?case by simp
next
  case (Cons t ts)
  from Cons.prems(2) have fresh: "\<forall>r \<in> set old. t - r < RATE_WINDOW"
    by (simp add: within_window_append)
  from Cons.prems(3) have "length old < RATE_LIMIT" by simp
  with Cons.prems(1) fresh
  have step: "check_rate_limit ip t rc = (True, rc(ip \<mapsto> old @ [t]))"
    by (rule check_rate_limit_admit)
  have "counts_of (rc(ip \<mapsto> old @ [t])) ip = old @ [t]"
    by (simp add: counts_of_def)
  moreover from Cons.prems(2) have "within_window ((old @ [t]) @ ts)" by simp
  moreover from Cons.prems(3) have "length (old @ [t]) + length ts \<le> RATE_LIMIT" by simp
  ultimately have IH: "fst (admit_all ip ts (rc(ip \<mapsto> old @ [t]))) = replicate (length ts) True \<and>
         counts_of (snd (admit_all ip ts (rc(ip \<mapsto> old @ [t])))) ip = (old @ [t]) @ ts"
    by (rule Cons.IH)
  then show ?case
    by (cases "admit_all ip ts (rc(ip \<mapsto> old @ [t]))") (simp add: step)
qed

lemma check_rate_limit_key: "snd (check_rate_limit ip now rc) ip \<noteq> None"
  by (simp add: check_rate_limit_def Let_def)

lemma admit_all_key: "ts \<noteq> [] \<Longrightarrow> snd (admit_all ip ts rc) ip \<noteq> None"
proof (induction ts arbitrary: rc)
  case Nil
  then show ?case by simp
next
  case (Cons t ts)
  obtain ok rc1 where step: "check_rate_limit ip t rc = (ok, rc1)"
    by (cases "check_rate_limit ip t rc")
  with check_rate_limit_key [of ip t rc] have key: "rc1 ip \<noteq> None" by simp
  show ?case
  proof (cases ts)
    case Nil
    with step key show ?thesis by simp
  next
    case (Cons u us)
    then have "snd (admit_all ip ts rc1) ip \<noteq> None"
      using Cons.IH by simp
    with step show ?thesis by (cases "admit_all ip ts rc1") simp
  qed
qed

lemma check_rate_limit_full:
  assumes "rc ip = Some old" "\<forall>r \<in> set old. now - r < RATE_WINDOW" "RATE_LIMIT \<le> length old"
  shows "check_rate_limit ip now rc = (False, rc)"
proof -
  from assms(2) have "filter (\<lambda>req_time. now - req_time < RATE_WINDOW) old = old"
    by simp
  moreover from assms(1) have "rc(ip \<mapsto> old) = rc" by auto
  ultimately show ?thesis
    using assms(1,3) by (simp add: check_rate_limit_def counts_of_def Let_def)
qed

lemma check_rate_limit_expired:
  assumes "length (counts_of rc ip) \<le> RATE_LIMIT"
      and "\<exists>r \<in> set (counts_of rc ip). RATE_WINDOW \<le> now - r"
  shows "fst (check_rate_limit ip now rc) = True"
proof -
  from assms(2) obtain r where "r \<in> set (counts_of rc ip)" "\<not> now - r < RATE_WINDOW"
    by auto
  then have "length (filter (\<lambda>req_time. now - req_time < RATE_WINDOW) (counts_of rc ip))
        < length (counts_of rc ip)"
    by (rule length_filter_less)
  with assms(1) show ?thesis
    by (simp add: check_rate_limit_def Let_def)
qed

text \<open>
  C3: for a client with no recorded request, \<open>RATE_LIMIT\<close> calls at the times \<open>ts\<close> and a
  further call at \<open>t101\<close>, no call \<open>RATE_WINDOW\<close> or more after an earlier one: each of the
  first \<open>RATE_LIMIT\<close> calls returns \<open>True\<close>; the next one returns \<open>False\<close> and leaves the
  state as it was; and a call at a time \<open>t'\<close> that lies \<open>RATE_WINDOW\<close> or more after one of
  the recorded calls returns \<open>True\<close> again.
\<close>

theorem rate_limit_window:
  assumes fresh: "counts_of rc ip = []"
      and n: "length ts = RATE_LIMIT"
      and window: "within_window (ts @ [t101])"
      and later: "\<exists>t \<in> set ts. RATE_WINDOW \<le> t' - t"
  shows "fst (admit_all ip ts rc) = replicate RATE_LIMIT True \<and>
         check_rate_limit ip t101 (snd (admit_all ip ts rc)) = (False, snd (admit_all ip ts rc)) \<and>
         fst (check_rate_limit ip t' (snd (admit_all ip ts rc))) = True"
proof -
  from window have w: "within_window ([] @ ts)" and recent: "\<forall>r \<in> set ts. t101 - r < RATE_WINDOW"
    by (simp_all add: within_window_append)
  from n have "length ([] :: real list) + length ts \<le> RATE_LIMIT" by simp
  with fresh w
  have run: "fst (admit_all ip ts rc) = replicate (length ts) True \<and>
             counts_of (snd (admit_all ip ts rc)) ip = [] @ ts"
    by (rule admit_all_within)
  from n have "ts \<noteq> []" by (auto simp: RATE_LIMIT_def)
  then have "snd (admit_all ip ts rc) ip \<noteq> None" by (rule admit_all_key)
  with run have stored: "snd (admit_all ip ts rc) ip = Some ts"
    by (auto simp: counts_of_def)
  from n have full: "RATE_LIMIT \<le> length ts" by arith
  from stored recent full
  have "check_rate_limit ip t101 (snd (admit_all ip ts rc)) = (False, snd (admit_all ip ts rc))"
    by (rule check_rate_limit_full)
  moreover from run n later
  have "fst (check_rate_limit ip t' (snd (admit_all ip ts rc))) = True"
    by (intro check_rate_limit_expired) simp_all
  ultimately show ?thesis using run n by simp
qed

lemma within_window_bounded:
  assumes "\<forall>t \<in> set ts. lo \<le> t \<and> t \<le> hi" "hi - lo < RATE_WINDOW"
  shows "within_window ts"
  using assms by (induction ts) (auto simp: list_all_iff)

theorem rate_limit_window_witness:
  "fst (admit_all ''10.0.0.1'' (map real [0..<100]) Map.empty) = replicate 100 True \<and>
   check_rate_limit ''10.0.0.1'' 100 (snd (admit_all ''10.0.0.1'' (map real [0..<100]) Map.empty))
     = (False, snd (admit_all ''10.0.0.1'' (map real [0..<100]) Map.empty)) \<and>
   fst (check_rate_limit ''10.0.0.1'' 3600 (snd (admit_all ''10.0.0.1'' (map real [0..<100]) Map.empty)))
     = True"
proof -
  have h1: "counts_of Map.empty ''10.0.0.1'' = []"
    by (simp add: counts_of_def)
  have h2: "length (map real [0..<100]) = RATE_LIMIT"
    by (simp add: RATE_LIMIT_def)
  have h3: "within_window (map real [0..<100] @ [100])"
    by (rule within_window_bounded [where lo = 0 and hi = 100]) (auto simp: RATE_WINDOW_def)
  have "real 0 \<in> set (map real [0..<100])" by simp
  then have h4: "\<exists>t \<in> set (map real [0..<100]). RATE_WINDOW \<le> 3600 - t"
    by (intro bexI [where x = "real 0"]) (simp_all add: RATE_WINDOW_def)
  from rate_limit_window [OF h1 h2 h3 h4] show ?thesis
    by (simp add: RATE_LIMIT_def)
qed

section \<open>What \<open>int\<close> can return\<close>

lemma int_digits_bound:
  "int_digits acc s = Some v \<Longrightarrow> 0 \<le> acc \<Longrightarrow>
     0 \<le> v \<and> v < (acc + 1) * 10 ^ length (filter is_decimal s)"
proof (induction acc s rule: int_digits.induct)
  case (1 acc)
  then show ?case by simp
next
  case (2 acc c)
  then show ?case
    using digit_val_bounds [of c] by (auto split: if_splits)
next
  case (3 acc c d ds)
  show ?case
  proof (cases "is_decimal c")
    case True
    let ?a = "acc * 10 + digit_val c"
    let ?P = "(10::int) ^ length (filter is_decimal (d # ds))"
    from True "3.prems" have run: "int_digits ?a (d # ds) = Some v" by simp
    from True "3.prems"(2) digit_val_bounds [of c] have a0: "0 \<le> ?a" and a1: "?a + 1 \<le> (acc + 1) * 10"
      by auto
    from "3.IH"(1) [OF True run a0] have v: "0 \<le> v" "v < (?a + 1) * ?P" by auto
    have "(?a + 1) * ?P \<le> ((acc + 1) * 10) * ?P"
      using a1 by (intro mult_right_mono) simp_all
    with v(2) have lt: "v < ((acc + 1) * 10) * ?P" by linarith
    have eq: "(acc + 1) * 10 ^ length (filter is_decimal (c # d # ds)) = ((acc + 1) * 10) * ?P"
      using True by simp
    show ?thesis unfolding eq using v(1) lt by (rule conjI)
  next
    case False
    with "3.prems" have us: "c = of_char CHR ''_''" and dd: "is_decimal d"
      by (auto split: if_splits)
    let ?a = "acc * 10 + digit_val d"
    let ?P = "(10::int) ^ length (filter is_decimal ds)"
    from False us dd "3.prems" have run: "int_digits ?a ds = Some v" by simp
    from dd "3.prems"(2) digit_val_bounds [of d] have a0: "0 \<le> ?a" and a1: "?a + 1 \<le> (acc + 1) * 10"
      by auto
    from "3.IH"(2) [OF False _ run a0] us dd have v: "0 \<le> v" "v < (?a + 1) * ?P" by auto
    have "(?a + 1) * ?P \<le> ((acc + 1) * 10) * ?P"
      using a1 by (intro mult_right_mono) simp_all
    with v(2) have lt: "v < ((acc + 1) * 10) * ?P" by linarith
    have eq: "(acc + 1) * 10 ^ length (filter is_decimal (c # d # ds)) = ((acc + 1) * 10) * ?P"
      using False dd by simp
    show ?thesis unfolding eq using v(1) lt by (rule conjI)
  qed
qed

lemma int_unsigned_bound:
  assumes "int_unsigned s = Some v"
  shows "0 \<le> v \<and> v < 10 ^ length (filter is_decimal s)"
proof -
  from assms obtain c cs where s: "s = c # cs" and c: "is_decimal c"
    and run: "int_digits (digit_val c) cs = Some v"
    by (auto simp: int_unsigned_def split: list.splits if_splits)
  let ?P = "(10::int) ^ length (filter is_decimal cs)"
  from c digit_val_bounds [of c] have d: "0 \<le> digit_val c" "digit_val c + 1 \<le> 10" by auto
  from int_digits_bound [OF run d(1)] have v: "0 \<le> v" "v < (digit_val c + 1) * ?P" by auto
  have "(digit_val c + 1) * ?P \<le> 10 * ?P"
    using d(2) by (intro mult_right_mono) simp_all
  with v(2) have lt: "v < 10 * ?P" by linarith
  have eq: "10 ^ length (filter is_decimal s) = 10 * ?P"
    using s c by simp
  show ?thesis unfolding eq using v(1) lt by (rule conjI)
qed

lemma filter_dropWhile_length:
  "length (filter P (dropWhile Q xs)) \<le> length (filter P xs)"
  by (induction xs) auto

lemma int_strip_decimals:
  "length (filter is_decimal (int_strip s)) \<le> length (filter is_decimal s)"
proof -
  have "length (filter is_decimal (int_strip s))
          = length (filter is_decimal (dropWhile int_space (rev (dropWhile int_space s))))"
    by (simp add: int_strip_def rev_filter [symmetric])
  also have "\<dots> \<le> length (filter is_decimal (rev (dropWhile int_space s)))"
    by (rule filter_dropWhile_length)
  also have "\<dots> = length (filter is_decimal (dropWhile int_space s))"
    by (simp add: rev_filter [symmetric])
  also have "\<dots> \<le> length (filter is_decimal s)"
    by (rule filter_dropWhile_length)
  finally show ?thesis .
qed

lemma py_int_bound:
  assumes "py_int s = Some v"
  shows "v < 10 ^ length (filter is_decimal s)"
proof -
  from assms obtain c cs where t: "int_strip s = c # cs"
    by (auto simp: py_int_def split: list.splits)
  have mono: "(10::int) ^ length (filter is_decimal (c # cs)) \<le> 10 ^ length (filter is_decimal s)"
    using int_strip_decimals [of s] t by (intro power_increasing) simp_all
  have tail: "(10::int) ^ length (filter is_decimal cs) \<le> 10 ^ length (filter is_decimal (c # cs))"
    by (intro power_increasing) simp_all
  consider (plus) "c = of_char CHR ''+''" | (minus) "c = of_char CHR ''-''"
    | (none) "c \<noteq> of_char CHR ''+''" "c \<noteq> of_char CHR ''-''"
    by blast
  then show ?thesis
  proof cases
    case plus
    with assms t have "int_unsigned cs = Some v" by (simp add: py_int_def)
    from int_unsigned_bound [OF this] tail mono show ?thesis by linarith
  next
    case minus
    with assms t obtain u where "int_unsigned cs = Some u" "v = - u"
      by (auto simp: py_int_def)
    with int_unsigned_bound [of cs u] have "v \<le> 0" by simp
    moreover have "(0::int) < 10 ^ length (filter is_decimal s)" by simp
    ultimately show ?thesis by linarith
  next
    case none
    with assms t have "int_unsigned (c # cs) = Some v" by (simp add: py_int_def)
    from int_unsigned_bound [OF this] mono show ?thesis by linarith
  qed
qed

lemma four_digit_year:
  assumes "length y = 4" "py_int y = Some v" "1000 \<le> v"
  shows "list_all is_decimal y"
proof (rule ccontr)
  assume "\<not> list_all is_decimal y"
  then obtain c where "c \<in> set y" "\<not> is_decimal c"
    by (auto simp: list_all_iff)
  then have "length (filter is_decimal y) < length y"
    by (rule length_filter_less)
  with assms(1) have "length (filter is_decimal y) \<le> 3" by simp
  then have "(10::int) ^ length (filter is_decimal y) \<le> 10 ^ 3"
    by (intro power_increasing) simp_all
  with py_int_bound [OF assms(2)] assms(3) show False by simp
qed

lemma zfill_length: "w \<le> length (zfill w s)"
  by (auto simp: zfill_def split: list.splits)

lemma isdigit_chars: "isdigit s \<Longrightarrow> list_all isdigit_char s"
  by (simp add: isdigit_def)

section \<open>The record of a successful parse\<close>

text \<open>
  A month of three characters, and one with a sign, are accepted and returned as they are.
\<close>

theorem month_not_two_digits:
  "validate_card_format 2026 (lit ''4111111111111111|012|2030|123'') =
     Inr \<lparr>card_number = lit ''4111111111111111'', month = lit ''012'', year = lit ''2030'',
          cvv = lit ''123'', original = lit ''4111111111111111|012|2030|123''\<rparr> \<and>
   validate_card_format 2026 (lit ''4111111111111111|+5|2030|123'') =
     Inr \<lparr>card_number = lit ''4111111111111111'', month = lit ''+5'', year = lit ''2030'',
          cvv = lit ''123'', original = lit ''4111111111111111|+5|2030|123''\<rparr>"
  by (simp add: validate_card_format_def Let_def parts_def strip_def is_space_def
      is_decimal_ascii zfill_def py_int_def int_strip_def int_space_def int_unsigned_def
      digit_val_ascii isdigit_def isdigit_char_def)

text \<open>
  The digits of the number, the year and the cvv need not be ASCII: here the number and
  the year are written in Arabic-Indic digits and the cvv ends in a superscript three.
\<close>

lemma digits_of_other_scripts:
  "validate_card_format 2026
     (map (\<lambda>c. c + 0x630) (lit ''4111111111111111'') @ lit ''|12|''
        @ map (\<lambda>c. c + 0x630) (lit ''2030'') @ lit ''|12'' @ [0xB3]) =
     Inr \<lparr>card_number = map (\<lambda>c. c + 0x630) (lit ''4111111111111111''), month = lit ''12'',
          year = map (\<lambda>c. c + 0x630) (lit ''2030''), cvv = lit ''12'' @ [0xB3],
          original = map (\<lambda>c. c + 0x630) (lit ''4111111111111111'') @ lit ''|12|''
            @ map (\<lambda>c. c + 0x630) (lit ''2030'') @ lit ''|12'' @ [0xB3]\<rparr>"
  by (simp add: validate_card_format_def Let_def parts_def strip_def is_space_def
      is_decimal_def decimal_of_def decimal_zeros_def zfill_def py_int_def int_strip_def
      int_space_def int_unsigned_def digit_val_def isdigit_def isdigit_char_def
      other_digits_def)

text \<open>
  C4, amended: in every record of a successful parse, while the calendar year has four
  digits, \<open>card_number\<close> is the decimal digits of the first segment, 13 to 19 of them;
  \<open>month\<close> is the second segment zero-filled to width 2, so it has at least two
  characters, and it reads as an integer from 1 to 12; \<open>year\<close> is the third segment, with
  20 before it when it has two characters, and it is four decimal digits that read as
  the calendar year or a later one; \<open>cvv\<close> is the fourth segment, of three or four
  characters, each a digit for \<open>str.isdigit\<close>; and \<open>original\<close> is the raw input. A decimal
  digit is one of any script.
\<close>

theorem card_record_invariant:
  assumes ok: "validate_card_format current_year raw = Inr r"
      and era: "1000 \<le> current_year"
  shows "4 \<le> length (parts raw) \<and>
         card_number r = filter is_decimal (parts raw ! 0) \<and>
         13 \<le> length (card_number r) \<and> length (card_number r) \<le> 19 \<and>
         list_all is_decimal (card_number r) \<and>
         month r = zfill 2 (parts raw ! 1) \<and>
         2 \<le> length (month r) \<and> (\<exists>m. py_int (month r) = Some m \<and> 1 \<le> m \<and> m \<le> 12) \<and>
         year r = (if length (parts raw ! 2) = 2 then lit ''20'' @ parts raw ! 2
                   else parts raw ! 2) \<and>
         length (year r) = 4 \<and> list_all is_decimal (year r) \<and>
         (\<exists>y. py_int (year r) = Some y \<and> current_year \<le> y) \<and>
         cvv r = parts raw ! 3 \<and>
         (length (cvv r) = 3 \<or> length (cvv r) = 4) \<and> list_all isdigit_char (cvv r) \<and>
         original r = raw"
proof -
  define yy where "yy = parts raw ! 2"
  define yyyy where "yyyy = (if length yy = 2 then lit ''20'' @ yy else yy)"
  from ok obtain m y where
    segments: "4 \<le> length (parts raw)"
    and fields: "r = \<lparr>card_number = filter is_decimal (parts raw ! 0),
                      month = zfill 2 (parts raw ! 1), year = yyyy, cvv = parts raw ! 3,
                      original = raw\<rparr>"
    and number: "13 \<le> length (filter is_decimal (parts raw ! 0))"
                "length (filter is_decimal (parts raw ! 0)) \<le> 19"
    and mon: "py_int (zfill 2 (parts raw ! 1)) = Some m" "1 \<le> m" "m \<le> 12"
    and yr: "py_int yyyy = Some y" "current_year \<le> y" "length yyyy = 4"
    and cv: "3 \<le> length (parts raw ! 3)" "length (parts raw ! 3) \<le> 4" "isdigit (parts raw ! 3)"
    unfolding validate_card_format_def Let_def yyyy_def yy_def
    by (auto split: if_splits option.splits)
  from yr era have "list_all is_decimal yyyy"
    by (intro four_digit_year [of yyyy y]) simp_all
  moreover have "list_all is_decimal (filter is_decimal (parts raw ! 0))"
    by (simp add: list_all_iff)
  moreover from cv(1,2) have "length (parts raw ! 3) = 3 \<or> length (parts raw ! 3) = 4"
    by arith
  moreover have "yyyy = (if length (parts raw ! 2) = 2 then lit ''20'' @ parts raw ! 2
                         else parts raw ! 2)"
    by (simp only: yyyy_def yy_def)
  ultimately show ?thesis
    using segments fields number mon yr cv(3) zfill_length [of 2 "parts raw ! 1"]
    by (simp add: isdigit_chars)
qed

theorem card_record_invariant_witness:
  "validate_card_format 2026 (lit '' 4111-1111-1111-1111 | 5 | 30 | 1234 '') =
     Inr \<lparr>card_number = lit ''4111111111111111'', month = lit ''05'', year = lit ''2030'',
          cvv = lit ''1234'', original = lit '' 4111-1111-1111-1111 | 5 | 30 | 1234 ''\<rparr> \<and>
   parts (lit '' 4111-1111-1111-1111 | 5 | 30 | 1234 '') =
     [lit ''4111-1111-1111-1111'', lit ''5'', lit ''30'', lit ''1234''] \<and>
   list_all is_decimal (lit ''4111111111111111'') \<and> py_int (lit ''05'') = Some 5 \<and>
   list_all is_decimal (lit ''2030'') \<and> py_int (lit ''2030'') = Some 2030 \<and>
   list_all isdigit_char (lit ''1234'')"
proof -
  let ?raw = "lit '' 4111-1111-1111-1111 | 5 | 30 | 1234 ''"
  let ?r = "\<lparr>card_number = lit ''4111111111111111'', month = lit ''05'', year = lit ''2030'',
          cvv = lit ''1234'', original = ?raw\<rparr>"
  have p: "parts ?raw = [lit ''4111-1111-1111-1111'', lit ''5'', lit ''30'', lit ''1234'']"
    by (simp add: parts_def strip_def is_space_def)
  have h: "validate_card_format 2026 ?raw = Inr ?r"
    by (simp add: validate_card_format_def Let_def parts_def strip_def is_space_def
        is_decimal_ascii zfill_def py_int_def int_strip_def int_space_def int_unsigned_def
        digit_val_ascii isdigit_def isdigit_char_def)
  have e: "(1000::int) \<le> 2026" by simp
  have m: "py_int (lit ''05'') = Some 5" and y: "py_int (lit ''2030'') = Some 2030"
    by (simp_all add: py_int_def int_strip_def int_space_def is_space_def int_unsigned_def
        is_decimal_ascii digit_val_ascii)
  note inv = card_record_invariant [OF h e]
  from inv have d1: "list_all is_decimal (card_number ?r)"
    and d2: "list_all is_decimal (year ?r)" and d3: "list_all isdigit_char (cvv ?r)"
    by blast+
  from h p m y d1 d2 d3 show ?thesis by simp
qed

section \<open>The messages of a bad month\<close>

text \<open>A month that is not a number is answered with a message of its own.\<close>

theorem month_format_message:
  "validate_card_format 2026 (lit ''4111111111111111|ab|2030|123'')
     = Inl ''Invalid month format''"
  by (simp add: validate_card_format_def Let_def parts_def strip_def is_space_def
      is_decimal_ascii zfill_def py_int_def int_strip_def int_space_def int_unsigned_def)

text \<open>
  C5, amended: for a raw input with at least four segments and 13 to 19 digits in the
  first one, a month segment that, zero-filled to width 2, reads as an integer outside
  1..12 fails with "Invalid month", and one that does not read as an integer fails with
  "Invalid month format".
\<close>

theorem month_failure_messages:
  assumes "4 \<le> length (parts raw)"
      and "13 \<le> length (filter is_decimal (parts raw ! 0))"
      and "length (filter is_decimal (parts raw ! 0)) \<le> 19"
  shows "(py_int (zfill 2 (parts raw ! 1)) = None \<longrightarrow>
            validate_card_format current_year raw = Inl ''Invalid month format'') \<and>
         (\<forall>m. py_int (zfill 2 (parts raw ! 1)) = Some m \<and> (m < 1 \<or> 12 < m) \<longrightarrow>
            validate_card_format current_year raw = Inl ''Invalid month'')"
  using assms by (auto simp: validate_card_format_def Let_def)

theorem month_failure_messages_witness:
  "validate_card_format 2026 (lit ''4111-1111-1111-1111 | 13 | 25 | 123'')
     = Inl ''Invalid month'' \<and>
   validate_card_format 2026 (lit ''4111111111111111||2030|123'') = Inl ''Invalid month'' \<and>
   validate_card_format 2026 (lit ''4111111111111111|1 2|2030|123'')
     = Inl ''Invalid month format''"
proof -
  let ?raw1 = "lit ''4111-1111-1111-1111 | 13 | 25 | 123''"
  let ?raw2 = "lit ''4111111111111111||2030|123''"
  let ?raw3 = "lit ''4111111111111111|1 2|2030|123''"
  have p1: "parts ?raw1 = [lit ''4111-1111-1111-1111'', lit ''13'', lit ''25'', lit ''123'']"
    by (simp add: parts_def strip_def is_space_def)
  have p2: "parts ?raw2 = [lit ''4111111111111111'', [], lit ''2030'', lit ''123'']"
    by (simp add: parts_def strip_def is_space_def)
  have p3: "parts ?raw3 = [lit ''4111111111111111'', lit ''1 2'', lit ''2030'', lit ''123'']"
    by (simp add: parts_def strip_def is_space_def)
  have m1: "py_int (zfill 2 (lit ''13'')) = Some 13"
    by (simp add: zfill_def py_int_def int_strip_def int_space_def is_space_def
        int_unsigned_def is_decimal_ascii digit_val_ascii)
  have m2: "py_int (zfill 2 []) = Some 0"
    by (simp add: zfill_def numeral_2_eq_2 py_int_def int_strip_def int_space_def
        is_space_def int_unsigned_def is_decimal_ascii digit_val_ascii)
  have m3: "py_int (zfill 2 (lit ''1 2'')) = None"
    by (simp add: zfill_def py_int_def int_strip_def int_space_def is_space_def
        int_unsigned_def is_decimal_ascii digit_val_ascii)
  from month_failure_messages [of ?raw1 2026] p1 m1
  have "validate_card_format 2026 ?raw1 = Inl ''Invalid month''"
    by (simp add: is_decimal_ascii)
  moreover
  from month_failure_messages [of ?raw2 2026] p2 m2
  have "validate_card_format 2026 ?raw2 = Inl ''Invalid month''"
    by (simp add: is_decimal_ascii)
  moreover
  from month_failure_messages [of ?raw3 2026] p3 m3
  have "validate_card_format 2026 ?raw3 = Inl ''Invalid month format''"
    by (simp add: is_decimal_ascii)
  ultimately show ?thesis by simp
qed

section \<open>Segments after the fourth\<close>

text \<open>
  C8: a raw string with more than four segments is parsed from its first four segments
  alone. Whatever string \<open>raw'\<close> has the same first four segments, the parse of \<open>raw\<close>
  fails exactly when that of \<open>raw'\<close> fails, with the same message, and otherwise gives
  the same number, month, year and cvv; \<open>original\<close> is the raw string itself.
\<close>

theorem extra_segments_ignored:
  assumes "4 < length (parts raw)"
      and "take 4 (parts raw') = take 4 (parts raw)"
  shows "validate_card_format current_year raw =
           map_sum id (\<lambda>r. r\<lparr>original := raw\<rparr>) (validate_card_format current_year raw')"
proof -
  from assms have len: "4 \<le> length (parts raw)" "4 \<le> length (parts raw')"
    by (auto dest: arg_cong [where f = length])
  have "parts raw' ! i = parts raw ! i" if "i < 4" for i
  proof -
    from that len
    have "parts raw' ! i = take 4 (parts raw') ! i" "parts raw ! i = take 4 (parts raw) ! i"
      by simp_all
    with assms(2) show ?thesis by simp
  qed
  then have "parts raw' ! 0 = parts raw ! 0" "parts raw' ! 1 = parts raw ! 1"
    "parts raw' ! 2 = parts raw ! 2" "parts raw' ! 3 = parts raw ! 3"
    by simp_all
  with len show ?thesis
    by (simp add: validate_card_format_def Let_def split: option.splits)
qed

theorem extra_segments_ignored_witness:
  "validate_card_format 2026 (lit ''4111111111111111|12|30|123|extra|more'') =
     Inr \<lparr>card_number = lit ''4111111111111111'', month = lit ''12'', year = lit ''2030'',
          cvv = lit ''123'', original = lit ''4111111111111111|12|30|123|extra|more''\<rparr> \<and>
   validate_card_format 2026 (lit ''4111111111111111|12|30|123'') =
     Inr \<lparr>card_number = lit ''4111111111111111'', month = lit ''12'', year = lit ''2030'',
          cvv = lit ''123'', original = lit ''4111111111111111|12|30|123''\<rparr>"
proof -
  let ?long = "lit ''4111111111111111|12|30|123|extra|more''"
  let ?short = "lit ''4111111111111111|12|30|123''"
  have p: "parts ?long = [lit ''4111111111111111'', lit ''12'', lit ''30'', lit ''123'',
                          lit ''extra'', lit ''more'']"
    by (simp add: parts_def strip_def is_space_def)
  have p': "parts ?short = [lit ''4111111111111111'', lit ''12'', lit ''30'', lit ''123'']"
    by (simp add: parts_def strip_def is_space_def)
  have short: "validate_card_format 2026 ?short =
     Inr \<lparr>card_number = lit ''4111111111111111'', month = lit ''12'', year = lit ''2030'',
          cvv = lit ''123'', original = ?short\<rparr>"
    by (simp add: validate_card_format_def Let_def parts_def strip_def is_space_def
        is_decimal_ascii zfill_def py_int_def int_strip_def int_space_def int_unsigned_def
        digit_val_ascii isdigit_def isdigit_char_def)
  from extra_segments_ignored [of ?long ?short 2026] p p' short
  show ?thesis by simp
qed

section \<open>The handlers and the rate limiter\<close>

lemma batch_loop_map:
  "batch_loop current_year results cards = results @ map (classify current_year) cards"
  by (induction cards arbitrary: results) simp_all

lemma check_rate_limit_counts:
  "counts_of (snd (check_rate_limit ip now rc)) ip =
     (let kept = filter (\<lambda>req_time. now - req_time < RATE_WINDOW) (counts_of rc ip)
      in if RATE_LIMIT \<le> length kept then kept else kept @ [now])"
  by (simp add: check_rate_limit_def Let_def counts_of_def)

lemma admit_all_stored:
  assumes "counts_of rc ip = []" "within_window ts" "length ts \<le> RATE_LIMIT" "ts \<noteq> []"
  shows "snd (admit_all ip ts rc) ip = Some ts"
proof -
  from assms(2) have "within_window ([] @ ts)" by simp
  moreover from assms(3) have "length ([] :: real list) + length ts \<le> RATE_LIMIT" by simp
  ultimately have "counts_of (snd (admit_all ip ts rc)) ip = [] @ ts"
    using admit_all_within [OF assms(1)] by blast
  moreover from assms(4) have "snd (admit_all ip ts rc) ip \<noteq> None"
    by (rule admit_all_key)
  ultimately show ?thesis by (auto simp: counts_of_def)
qed

lemma hundred_used:
  "check_rate_limit ''10.0.0.1'' 100 (snd (admit_all ''10.0.0.1'' (map real [0..<100]) Map.empty))
     = (False, snd (admit_all ''10.0.0.1'' (map real [0..<100]) Map.empty))"
proof -
  let ?rc = "snd (admit_all ''10.0.0.1'' (map real [0..<100]) Map.empty)"
  have "within_window (map real [0..<100])"
    by (rule within_window_bounded [where lo = 0 and hi = 100]) (auto simp: RATE_WINDOW_def)
  then have stored: "?rc ''10.0.0.1'' = Some (map real [0..<100])"
    by (intro admit_all_stored) (simp_all add: counts_of_def RATE_LIMIT_def)
  show ?thesis
    using stored by (rule check_rate_limit_full) (auto simp: RATE_WINDOW_def RATE_LIMIT_def)
qed

section \<open>Batch validation\<close>

text \<open>
  A client that has used its 100 requests, one a second, gets 429 for an empty batch,
  not 400: the rate limiter is asked first.
\<close>

theorem batch_rate_limited:
  "fst (validate_batch ''10.0.0.1'' 100 2026 []
         (snd (admit_all ''10.0.0.1'' (map real [0..<100]) Map.empty)))
     = HttpError 429 ''Rate limit exceeded. Please try again later.''"
  by (simp add: validate_batch_def hundred_used)

text \<open>
  C7, amended: when the rate limiter admits the request, a list of 1 to 100 cards gets
  a result list of the same length whose i-th entry is the classification of the i-th
  card, and a list of length 0 or more than 100 is rejected with status 400. When the
  rate limiter refuses the request, the answer is status 429, whatever the list.
\<close>

theorem batch_results:
  "(fst (check_rate_limit client_ip now request_counts) = True \<longrightarrow>
      (1 \<le> length cards \<and> length cards \<le> 100 \<longrightarrow>
         (\<exists>results. fst (validate_batch client_ip now current_year cards request_counts)
                      = Http200 results \<and>
            length results = length cards \<and>
            (\<forall>i < length cards. results ! i = classify current_year (cards ! i)))) \<and>
      (length cards = 0 \<or> 100 < length cards \<longrightarrow>
         fst (validate_batch client_ip now current_year cards request_counts)
           = HttpError 400 ''Invalid batch size (max 100)'')) \<and>
   (fst (check_rate_limit client_ip now request_counts) = False \<longrightarrow>
      fst (validate_batch client_ip now current_year cards request_counts)
        = HttpError 429 ''Rate limit exceeded. Please try again later.'')"
proof (intro conjI impI)
  assume admitted: "fst (check_rate_limit client_ip now request_counts) = True"
    and size: "1 \<le> length cards \<and> length cards \<le> 100"
  from admitted obtain rc where step: "check_rate_limit client_ip now request_counts = (True, rc)"
    by (cases "check_rate_limit client_ip now request_counts") simp
  from size have "cards \<noteq> []" by auto
  with size step
  have "fst (validate_batch client_ip now current_year cards request_counts)
          = Http200 (map (classify current_year) cards)"
    by (simp add: validate_batch_def batch_loop_map)
  then show "\<exists>results. fst (validate_batch client_ip now current_year cards request_counts)
                       = Http200 results \<and>
             length results = length cards \<and>
             (\<forall>i < length cards. results ! i = classify current_year (cards ! i))"
    by simp
next
  assume admitted: "fst (check_rate_limit client_ip now request_counts) = True"
    and size: "length cards = 0 \<or> 100 < length cards"
  from admitted obtain rc where step: "check_rate_limit client_ip now request_counts = (True, rc)"
    by (cases "check_rate_limit client_ip now request_counts") simp
  with size
  show "fst (validate_batch client_ip now current_year cards request_counts)
            = HttpError 400 ''Invalid batch size (max 100)''"
    by (auto simp: validate_batch_def)
next
  assume refused: "fst (check_rate_limit client_ip now request_counts) = False"
  then obtain rc where "check_rate_limit client_ip now request_counts = (False, rc)"
    by (cases "check_rate_limit client_ip now request_counts") simp
  then show "fst (validate_batch client_ip now current_year cards request_counts)
               = HttpError 429 ''Rate limit exceeded. Please try again later.''"
    by (simp add: validate_batch_def)
qed

theorem batch_results_witness:
  "fst (validate_batch ''10.0.0.1'' 0 2026
         [lit ''4532015112830366|12|2030|123'', lit ''x'', lit ''1234567812345678|1|30|123'']
         Map.empty)
     = Http200 [classify 2026 (lit ''4532015112830366|12|2030|123''), classify 2026 (lit ''x''),
                classify 2026 (lit ''1234567812345678|1|30|123'')] \<and>
   fst (validate_batch ''10.0.0.1'' 0 2026 [] Map.empty)
     = HttpError 400 ''Invalid batch size (max 100)'' \<and>
   fst (validate_batch ''10.0.0.1'' 100 2026 [lit ''4532015112830366|12|2030|123'']
         (snd (admit_all ''10.0.0.1'' (map real [0..<100]) Map.empty)))
     = HttpError 429 ''Rate limit exceeded. Please try again later.''"
proof -
  let ?c1 = "lit ''4532015112830366|12|2030|123''"
  let ?c2 = "lit ''x''"
  let ?c3 = "lit ''1234567812345678|1|30|123''"
  let ?used = "snd (admit_all ''10.0.0.1'' (map real [0..<100]) Map.empty)"
  have a: "fst (check_rate_limit ''10.0.0.1'' 0 Map.empty) = True"
    by (simp add: check_rate_limit_def counts_of_def RATE_LIMIT_def Let_def)
  have b: "fst (check_rate_limit ''10.0.0.1'' 100 ?used) = False"
    by (simp add: hundred_used)
  from batch_results [of "''10.0.0.1''" 0 Map.empty "[?c1, ?c2, ?c3]" 2026] a
  obtain results where r:
    "fst (validate_batch ''10.0.0.1'' 0 2026 [?c1, ?c2, ?c3] Map.empty) = Http200 results"
    "length results = 3"
    "\<forall>i < 3. results ! i = classify 2026 ([?c1, ?c2, ?c3] ! i)"
    by auto
  from r(3) have "results ! 0 = classify 2026 ?c1" "results ! 1 = classify 2026 ?c2"
    "results ! 2 = classify 2026 ?c3"
    by auto
  with r(2) have "results = [classify 2026 ?c1, classify 2026 ?c2, classify 2026 ?c3]"
    by (auto simp: list_eq_iff_nth_eq less_Suc_eq numeral_3_eq_3 numeral_2_eq_2)
  with r(1) have one: "fst (validate_batch ''10.0.0.1'' 0 2026 [?c1, ?c2, ?c3] Map.empty)
      = Http200 [classify 2026 ?c1, classify 2026 ?c2, classify 2026 ?c3]"
    by simp
  from batch_results [of "''10.0.0.1''" 0 Map.empty "[]" 2026] a
  have two: "fst (validate_batch ''10.0.0.1'' 0 2026 [] Map.empty)
      = HttpError 400 ''Invalid batch size (max 100)''"
    by simp
  from batch_results [of "''10.0.0.1''" 100 ?used "[?c1]" 2026] b
  have three: "fst (validate_batch ''10.0.0.1'' 100 2026 [?c1] ?used)
      = HttpError 429 ''Rate limit exceeded. Please try again later.''"
    by simp
  from one two three show ?thesis by (intro conjI)
qed

text \<open>
  C9: whatever the cards, a batch request leaves the rate limiter in the state that one
  call of \<open>check_rate_limit\<close> gives, as a single validation does: one pruning of the
  client's list and, when admitted, one new time.
\<close>

theorem batch_one_rate_check:
  "snd (validate_batch client_ip now current_year cards request_counts)
     = snd (check_rate_limit client_ip now request_counts) \<and>
   snd (validate_card client_ip now current_year card_data request_counts)
     = snd (check_rate_limit client_ip now request_counts) \<and>
   counts_of (snd (validate_batch client_ip now current_year cards request_counts)) client_ip
     = (let kept = filter (\<lambda>req_time. now - req_time < RATE_WINDOW)
                     (counts_of request_counts client_ip)
        in if RATE_LIMIT \<le> length kept then kept else kept @ [now])"
proof -
  obtain ok rc where step: "check_rate_limit client_ip now request_counts = (ok, rc)"
    by (cases "check_rate_limit client_ip now request_counts")
  then have b: "snd (validate_batch client_ip now current_year cards request_counts) = rc"
    and s: "snd (validate_card client_ip now current_year card_data request_counts) = rc"
    by (cases ok; simp add: validate_batch_def validate_card_def)+
  from check_rate_limit_counts [of client_ip now request_counts] step b s
  show ?thesis by simp
qed

section \<open>The digits of a generated number\<close>

text \<open>
  Every character that the generator draws is one decimal digit, so a pattern of digits
  and \<open>x\<close> gives a string of digits, of length 15 or of the length of the pattern if that
  is more.
\<close>

lemma digit_char_decimal:
  assumes "n < 10"
  shows "is_decimal (of_char CHR ''0'' + n) \<and> digit_val (of_char CHR ''0'' + n) = int n"
  using assms by (simp add: is_decimal_ascii digit_val_ascii)

lemma str_int_digit:
  assumes "0 \<le> d" "d \<le> 9"
  shows "\<exists>c. str_int d = [c] \<and> is_decimal c \<and> digit_val c = d"
proof -
  from assms have n: "nat d < 10" by simp
  with assms have "str_int d = [of_char CHR ''0'' + nat d]"
    by (simp add: str_int_def str_nat.simps [of "nat d"])
  with digit_char_decimal [OF n] assms(1) show ?thesis by simp
qed

lemma randint_digit:
  "\<exists>c. str_int (fst (randint rng 0 9 k)) = [c] \<and> is_decimal c"
proof -
  have "0 \<le> fst (randint rng 0 9 k)" "fst (randint rng 0 9 k) \<le> 9"
    by (simp_all add: randint_def)
  from str_int_digit [OF this] show ?thesis by blast
qed

lemma replace_x_digits:
  assumes "list_all is_decimal acc"
      and "\<forall>c \<in> set pat. is_decimal c \<or> lower_is [c] (lit ''x'')"
  shows "list_all is_decimal (fst (replace_x rng acc pat k)) \<and>
         length (fst (replace_x rng acc pat k)) = length acc + length pat"
  using assms
proof (induction pat arbitrary: acc k)
  case Nil
  then show ?case by simp
next
  case (Cons c cs)
  show ?case
  proof (cases "lower_is [c] (lit ''x'')")
    case True
    obtain d where d: "str_int (fst (randint rng 0 9 k)) = [d]" "is_decimal d"
      using randint_digit by blast
    with Cons.prems have "list_all is_decimal (acc @ [d])" by simp
    moreover from Cons.prems have "\<forall>c \<in> set cs. is_decimal c \<or> lower_is [c] (lit ''x'')" by simp
    ultimately show ?thesis
      using Cons.IH [of "acc @ [d]" "snd (randint rng 0 9 k)"] True d by simp
  next
    case False
    with Cons.prems have "list_all is_decimal (acc @ [c])" by simp
    moreover from Cons.prems have "\<forall>c \<in> set cs. is_decimal c \<or> lower_is [c] (lit ''x'')" by simp
    ultimately show ?thesis
      using Cons.IH [of "acc @ [c]" k] False by simp
  qed
qed

lemma fill15_digits:
  "list_all is_decimal acc \<Longrightarrow>
     list_all is_decimal (fst (fill15 rng acc k)) \<and>
     length (fst (fill15 rng acc k)) = max 15 (length acc)"
proof (induction rng acc k rule: fill15.induct)
  case (1 rng card_num k)
  show ?case
  proof (cases "length card_num < 15")
    case True
    obtain d where d: "str_int (fst (randint rng 0 9 k)) = [d]" "is_decimal d"
      using randint_digit by blast
    with "1.prems" have "list_all is_decimal (card_num @ str_int (fst (randint rng 0 9 k)))"
      by simp
    from "1.IH" [OF True this] True d show ?thesis
      by (subst (1 2) fill15.simps) auto
  next
    case False
    with "1.prems" show ?thesis
      by (subst (1 2) fill15.simps) auto
  qed
qed

section \<open>The check digit\<close>

text \<open>
  The sum for the check digit is the sum of \<open>luhn_check\<close> with the parity fixed at 0. That
  is the parity \<open>luhn_check\<close> uses once the check digit is appended exactly when the string
  before it has odd length.
\<close>

lemma check_total_luhn_loop: "check_total i tot s = luhn_loop 0 i tot s"
  by (induction s arbitrary: i tot) (simp_all split: option.splits)

lemma luhn_loop_digits:
  "list_all is_decimal s \<Longrightarrow> \<exists>t. luhn_loop parity i tot s = Some t"
  by (induction s arbitrary: i tot) (simp_all add: py_int_single)

lemma luhn_loop_append:
  "luhn_loop parity i tot (s @ r) =
     (case luhn_loop parity i tot s of
        None \<Rightarrow> None
      | Some t \<Rightarrow> luhn_loop parity (i + length s) t r)"
  by (induction s arbitrary: i tot) (simp_all split: option.splits)

lemma check_digit_closes:
  assumes digits: "list_all is_decimal s" and odd: "odd (length s)"
      and tot: "check_total 0 0 s = Some t"
  shows "luhn_check (s @ str_int ((t * 9) mod 10))"
proof -
  have "0 \<le> (t * 9) mod 10" "(t * 9) mod 10 \<le> 9" by simp_all
  from str_int_digit [OF this] obtain c where
    c: "str_int ((t * 9) mod 10) = [c]" "is_decimal c" "digit_val c = (t * 9) mod 10"
    by blast
  from odd have par: "length (s @ [c]) mod 2 = 0" "length s mod 2 = 1"
    by (simp_all add: odd_iff_mod_2_eq_one)
  from tot have "luhn_loop 0 0 0 s = Some t" by (simp add: check_total_luhn_loop)
  then have "luhn_loop 0 0 0 (s @ [c]) = Some (t + (t * 9) mod 10)"
    using c par(2) by (simp add: luhn_loop_append py_int_single)
  moreover have "(t + (t * 9) mod 10) mod 10 = 0" by presburger
  ultimately show ?thesis
    using c(1) par(1) by (simp add: luhn_check_def)
qed

lemma gen_card_num_valid:
  assumes pat: "\<forall>c \<in> set bin_pattern. is_decimal c \<or> lower_is [c] (lit ''x'')"
      and len: "length bin_pattern \<le> 15 \<or> odd (length bin_pattern)"
  shows "\<exists>num k'. gen_card_num rng bin_pattern k = Some (num, k') \<and>
           list_all is_decimal num \<and> luhn_check num"
proof -
  obtain replaced k1 where r: "replace_x rng [] bin_pattern k = (replaced, k1)"
    by (cases "replace_x rng [] bin_pattern k")
  obtain s k2 where f: "fill15 rng replaced k1 = (s, k2)"
    by (cases "fill15 rng replaced k1")
  from replace_x_digits [of "[]" bin_pattern rng k] pat r
  have rd: "list_all is_decimal replaced" "length replaced = length bin_pattern" by simp_all
  from fill15_digits [OF rd(1), of rng k1] f rd(2)
  have sd: "list_all is_decimal s" "length s = max 15 (length bin_pattern)" by simp_all
  from sd(2) len have odd: "odd (length s)" by (auto simp: max_def)
  from luhn_loop_digits [OF sd(1), of 0 0 0] obtain t where t: "check_total 0 0 s = Some t"
    by (auto simp: check_total_luhn_loop)
  have "0 \<le> (t * 9) mod 10" "(t * 9) mod 10 \<le> 9" by simp_all
  from str_int_digit [OF this] obtain c where c: "str_int ((t * 9) mod 10) = [c]" "is_decimal c"
    by blast
  have "gen_card_num rng bin_pattern k = Some (s @ str_int ((t * 9) mod 10), k2)"
    by (simp add: gen_card_num_def r f t)
  moreover have "luhn_check (s @ str_int ((t * 9) mod 10))"
    using sd(1) odd t by (rule check_digit_closes)
  moreover have "list_all is_decimal (s @ str_int ((t * 9) mod 10))"
    using sd(1) c by simp
  ultimately show ?thesis by blast
qed

section \<open>The lines of a response\<close>

text \<open>
  Each line of a successful response is the result of one round of the loop. The rounds
  succeed exactly when the pattern holds only decimal digits and \<open>x\<close>: any other character
  is copied into the number, where \<open>int\<close> raises on it.
\<close>

lemma gen_loop_lines:
  assumes "gen_loop rng cy pat m y v n generated k = Some (out, k')"
  shows "length out = length generated + n \<and>
         (\<forall>line \<in> set out. line \<in> set generated \<or>
            (\<exists>j j'. gen_one rng cy pat m y v j = Some (line, j')))"
  using assms
proof (induction n arbitrary: generated k)
  case 0
  then show ?case by auto
next
  case (Suc n)
  from Suc.prems obtain line k1 where one: "gen_one rng cy pat m y v k = Some (line, k1)"
    and rest: "gen_loop rng cy pat m y v n (generated @ [line]) k1 = Some (out, k')"
    by (auto split: option.splits)
  from Suc.IH [OF rest] one show ?case by auto
qed

lemma generate_cards_lines:
  assumes "generate_cards ip now cy rng pat quantity m y v st = (Http200 cards, st')"
  shows "length cards = nat quantity \<and>
         (\<forall>line \<in> set cards. \<exists>j j'. gen_one rng cy pat m y v j = Some (line, j'))"
proof -
  from assms obtain k' where
    "gen_loop rng cy pat m y v (nat quantity) [] (snd st) = Some (cards, k')"
    by (auto simp: generate_cards_def split: prod.splits bool.splits if_splits option.splits)
  from gen_loop_lines [OF this] show ?thesis by simp
qed

lemma replace_x_keeps:
  "c \<in> set acc \<or> (c \<in> set pat \<and> \<not> lower_is [c] (lit ''x''))
     \<Longrightarrow> c \<in> set (fst (replace_x rng acc pat k))"
  by (induction pat arbitrary: acc k) auto

lemma fill15_keeps: "c \<in> set acc \<Longrightarrow> c \<in> set (fst (fill15 rng acc k))"
proof (induction rng acc k rule: fill15.induct)
  case (1 rng card_num k)
  show ?case
  proof (cases "length card_num < 15")
    case True
    from "1.prems" have "c \<in> set (card_num @ str_int (fst (randint rng 0 9 k)))" by simp
    from "1.IH" [OF True this] True show ?thesis
      by (subst fill15.simps) simp
  next
    case False
    with "1.prems" show ?thesis by (subst fill15.simps) simp
  qed
qed

lemma gen_card_num_Some_iff:
  "(\<exists>num k'. gen_card_num rng bin_pattern k = Some (num, k')) \<longleftrightarrow>
     (\<forall>c \<in> set bin_pattern. is_decimal c \<or> lower_is [c] (lit ''x''))"
proof
  assume ok: "\<forall>c \<in> set bin_pattern. is_decimal c \<or> lower_is [c] (lit ''x'')"
  obtain replaced k1 where r: "replace_x rng [] bin_pattern k = (replaced, k1)"
    by (cases "replace_x rng [] bin_pattern k")
  obtain s k2 where f: "fill15 rng replaced k1 = (s, k2)"
    by (cases "fill15 rng replaced k1")
  from replace_x_digits [of "[]" bin_pattern rng k] ok r
  have "list_all is_decimal replaced" by simp
  from fill15_digits [OF this, of rng k1] f have "list_all is_decimal s" by simp
  from luhn_loop_digits [OF this, of 0 0 0] obtain t where "check_total 0 0 s = Some t"
    by (auto simp: check_total_luhn_loop)
  then show "\<exists>num k'. gen_card_num rng bin_pattern k = Some (num, k')"
    by (simp add: gen_card_num_def r f)
next
  assume some: "\<exists>num k'. gen_card_num rng bin_pattern k = Some (num, k')"
  show "\<forall>c \<in> set bin_pattern. is_decimal c \<or> lower_is [c] (lit ''x'')"
  proof (rule ccontr)
    assume "\<not> (\<forall>c \<in> set bin_pattern. is_decimal c \<or> lower_is [c] (lit ''x''))"
    then obtain c where c: "c \<in> set bin_pattern" "\<not> is_decimal c" "\<not> lower_is [c] (lit ''x'')"
      by blast
    obtain replaced k1 where r: "replace_x rng [] bin_pattern k = (replaced, k1)"
      by (cases "replace_x rng [] bin_pattern k")
    obtain s k2 where f: "fill15 rng replaced k1 = (s, k2)"
      by (cases "fill15 rng replaced k1")
    from replace_x_keeps [of c "[]" bin_pattern rng k] c r have "c \<in> set replaced" by simp
    from fill15_keeps [OF this, of rng k1] f have "c \<in> set s" by simp
    with c(2) have "\<exists>c \<in> set s. \<not> is_decimal c" by blast
    then have "check_total 0 0 s = None"
      by (simp add: check_total_luhn_loop luhn_loop_non_digit)
    then have "gen_card_num rng bin_pattern k = None"
      by (simp add: gen_card_num_def r f)
    with some show False by simp
  qed
qed

lemma gen_one_Some_iff:
  "(\<exists>line k'. gen_one rng cy pat m y v k = Some (line, k')) \<longleftrightarrow>
     (\<forall>c \<in> set pat. is_decimal c \<or> lower_is [c] (lit ''x''))"
proof -
  have "(\<exists>line k'. gen_one rng cy pat m y v k = Some (line, k')) \<longleftrightarrow>
          (\<exists>num k1. gen_card_num rng pat k = Some (num, k1))"
    by (auto simp: gen_one_def split: option.splits prod.splits)
  then show ?thesis by (simp only: gen_card_num_Some_iff)
qed

lemma gen_loop_total:
  assumes "\<forall>c \<in> set pat. is_decimal c \<or> lower_is [c] (lit ''x'')"
  shows "\<exists>out k'. gen_loop rng cy pat m y v n generated k = Some (out, k')"
proof (induction n arbitrary: generated k)
  case 0
  show ?case by simp
next
  case (Suc n)
  from assms gen_one_Some_iff [of rng cy pat m y v k]
  obtain line k1 where one: "gen_one rng cy pat m y v k = Some (line, k1)" by blast
  from Suc [of "generated @ [line]" k1] one show ?case by simp
qed

lemma gen_loop_pattern:
  assumes "gen_loop rng cy pat m y v (Suc n) generated k = Some (out, k')"
  shows "\<forall>c \<in> set pat. is_decimal c \<or> lower_is [c] (lit ''x'')"
proof -
  from assms obtain line k1 where "gen_one rng cy pat m y v k = Some (line, k1)"
    by (auto split: option.splits)
  with gen_one_Some_iff [of rng cy pat m y v k] show ?thesis by blast
qed

lemma gen_card_num_digits:
  assumes "gen_card_num rng bin_pattern k = Some (num, k')"
  shows "list_all is_decimal num"
proof -
  from assms gen_card_num_Some_iff [of rng bin_pattern k]
  have ok: "\<forall>c \<in> set bin_pattern. is_decimal c \<or> lower_is [c] (lit ''x'')" by blast
  obtain replaced k1 where r: "replace_x rng [] bin_pattern k = (replaced, k1)"
    by (cases "replace_x rng [] bin_pattern k")
  obtain s k2 where f: "fill15 rng replaced k1 = (s, k2)"
    by (cases "fill15 rng replaced k1")
  from replace_x_digits [of "[]" bin_pattern rng k] ok r
  have "list_all is_decimal replaced" by simp
  from fill15_digits [OF this, of rng k1] f have sd: "list_all is_decimal s" by simp
  from luhn_loop_digits [OF sd, of 0 0 0] obtain t where t: "check_total 0 0 s = Some t"
    by (auto simp: check_total_luhn_loop)
  have "0 \<le> (t * 9) mod 10" "(t * 9) mod 10 \<le> 9" by simp_all
  from str_int_digit [OF this] obtain c where c: "str_int ((t * 9) mod 10) = [c]" "is_decimal c"
    by blast
  from assms have "num = s @ str_int ((t * 9) mod 10)"
    by (simp add: gen_card_num_def r f t)
  with sd c show ?thesis by simp
qed

lemma generate_cards_any_month_cvv:
  assumes "generate_cards ip now cy rng pat quantity m y v st = (Http200 cards, st')"
  shows "\<exists>cards' st''. generate_cards ip now cy rng pat quantity m' y v' st = (Http200 cards', st'')"
proof -
  obtain ok rc where step: "check_rate_limit ip now (fst st) = (ok, rc)"
    by (cases "check_rate_limit ip now (fst st)")
  from assms step have ok: "ok"
    by (cases ok) (simp_all add: generate_cards_def)
  from assms step ok have size: "\<not> (pat = [] \<or> length pat < 6)"
    and q: "\<not> (quantity < 1 \<or> quantity > 10000)"
    by (auto simp: generate_cards_def split: if_splits)
  from assms step ok size q obtain k' where
    loop: "gen_loop rng cy pat m y v (nat quantity) [] (snd st) = Some (cards, k')"
    by (auto simp: generate_cards_def split: option.splits)
  from q obtain n where n: "nat quantity = Suc n" by (cases "nat quantity") auto
  from loop n gen_loop_pattern [of rng cy pat m y v n "[]" "snd st" cards k']
  have "\<forall>c \<in> set pat. is_decimal c \<or> lower_is [c] (lit ''x'')" by simp
  from gen_loop_total [OF this, of rng cy m' y v' "nat quantity" "[]" "snd st"]
  obtain out k2 where "gen_loop rng cy pat m' y v' (nat quantity) [] (snd st) = Some (out, k2)"
    by blast
  with step ok size q show ?thesis
    by (simp add: generate_cards_def)
qed

lemma gen_one_fields:
  assumes "gen_one rng cy pat m y v k = Some (line, k')"
  shows "\<exists>num k1 k2 k3. gen_card_num rng pat k = Some (num, k1) \<and>
           line = num @ lit ''|'' @ fst (gen_month rng m k1) @ lit ''|'' @ fst (gen_year rng cy y k2)
                    @ lit ''|'' @ fst (gen_cvv rng v k3)"
proof -
  from assms obtain num k1 where num: "gen_card_num rng pat k = Some (num, k1)"
    by (auto simp: gen_one_def split: option.splits)
  obtain mm k2 where mm: "gen_month rng m k1 = (mm, k2)" by (cases "gen_month rng m k1")
  obtain yy k3 where yy: "gen_year rng cy y k2 = (yy, k3)" by (cases "gen_year rng cy y k2")
  obtain cv k4 where cv: "gen_cvv rng v k3 = (cv, k4)" by (cases "gen_cvv rng v k3")
  from assms num mm yy cv have "line = num @ lit ''|'' @ mm @ lit ''|'' @ yy @ lit ''|'' @ cv"
    by (simp add: gen_one_def)
  with num mm yy cv show ?thesis
    by (metis fst_conv)
qed

lemma gen_month_fixed: "\<not> lower_is m (lit ''rnd'') \<Longrightarrow> fst (gen_month rng m k) = zfill 2 m"
  by (simp add: gen_month_def)

lemma gen_cvv_fixed: "\<not> lower_is v (lit ''rnd'') \<Longrightarrow> fst (gen_cvv rng v k) = zfill 3 v"
  by (simp add: gen_cvv_def)

section \<open>Fixed month and cvv\<close>

text \<open>
  C10: in every line of a successful response the number is followed by the month, the
  year and the cvv; a month argument other than \<open>rnd\<close> (in any case) appears zero-filled
  to width 2 and a cvv argument other than \<open>rnd\<close> zero-filled to width 3, and nothing else
  is done to them. Neither is validated: a request that succeeds also succeeds with any
  other month and cvv. Zero-filling leaves \<open>13\<close> and \<open>99999\<close> as they are.
\<close>

theorem fixed_month_cvv_verbatim:
  assumes "generate_cards client_ip now current_year rng bin_pattern quantity
             month_arg year_arg cvv_arg st = (Http200 cards, st')"
  shows "(\<forall>line \<in> set cards. \<exists>num m y v.
            line = num @ lit ''|'' @ m @ lit ''|'' @ y @ lit ''|'' @ v \<and>
            list_all is_decimal num \<and>
            (\<not> lower_is month_arg (lit ''rnd'') \<longrightarrow> m = zfill 2 month_arg) \<and>
            (\<not> lower_is cvv_arg (lit ''rnd'') \<longrightarrow> v = zfill 3 cvv_arg)) \<and>
         (\<forall>month' cvv'. \<exists>cards' st''.
            generate_cards client_ip now current_year rng bin_pattern quantity
              month' year_arg cvv' st = (Http200 cards', st'')) \<and>
         zfill 2 (lit ''13'') = lit ''13'' \<and> zfill 3 (lit ''99999'') = lit ''99999''"
proof (intro conjI ballI allI)
  fix line
  assume "line \<in> set cards"
  with generate_cards_lines [OF assms] obtain j j' where
    "gen_one rng current_year bin_pattern month_arg year_arg cvv_arg j = Some (line, j')"
    by blast
  from gen_one_fields [OF this] obtain num k1 k2 k3 where
    num: "gen_card_num rng bin_pattern j = Some (num, k1)" and
    line: "line = num @ lit ''|'' @ fst (gen_month rng month_arg k1) @ lit ''|'' @
             fst (gen_year rng current_year year_arg k2) @ lit ''|'' @
             fst (gen_cvv rng cvv_arg k3)"
    by blast
  from num have "list_all is_decimal num" by (rule gen_card_num_digits)
  with line show "\<exists>num m y v.
            line = num @ lit ''|'' @ m @ lit ''|'' @ y @ lit ''|'' @ v \<and>
            list_all is_decimal num \<and>
            (\<not> lower_is month_arg (lit ''rnd'') \<longrightarrow> m = zfill 2 month_arg) \<and>
            (\<not> lower_is cvv_arg (lit ''rnd'') \<longrightarrow> v = zfill 3 cvv_arg)"
    using gen_month_fixed [of month_arg rng k1] gen_cvv_fixed [of cvv_arg rng k3] by blast
next
  fix month' cvv'
  from assms show "\<exists>cards' st''.
            generate_cards client_ip now current_year rng bin_pattern quantity
              month' year_arg cvv' st = (Http200 cards', st'')"
    by (rule generate_cards_any_month_cvv)
next
  show "zfill 2 (lit ''13'') = lit ''13''" by (simp add: zfill_def)
next
  show "zfill 3 (lit ''99999'') = lit ''99999''" by (simp add: zfill_def)
qed

lemma gen_fixed:
  "fst (generate_cards ''10.0.0.1'' 0 2026 (\<lambda>k. 7 * k + 3) (lit ''453201'') 2
          (lit ''13'') (lit ''30'') (lit ''99999'') (Map.empty, 0))
     = Http200 [lit ''4532013074185291|13|2030|99999'', lit ''4532016307418520|13|2030|99999'']"
proof -
  let ?rng = "\<lambda>k::nat. 7 * k + 3"
  have one: "gen_one ?rng 2026 (lit ''453201'') (lit ''13'') (lit ''30'') (lit ''99999'') 0
               = Some (lit ''4532013074185291|13|2030|99999'', 9)"
    by (simp add: gen_one_def gen_card_num_def fill15.simps randint_def lower_is_def
        ascii_lower_def py_int_single is_decimal_ascii digit_val_ascii str_int_def
        str_nat.simps gen_month_def gen_year_def gen_cvv_def zfill_def)
  have two: "gen_one ?rng 2026 (lit ''453201'') (lit ''13'') (lit ''30'') (lit ''99999'') 9
               = Some (lit ''4532016307418520|13|2030|99999'', 18)"
    by (simp add: gen_one_def gen_card_num_def fill15.simps randint_def lower_is_def
        ascii_lower_def py_int_single is_decimal_ascii digit_val_ascii str_int_def
        str_nat.simps gen_month_def gen_year_def gen_cvv_def zfill_def)
  have "check_rate_limit ''10.0.0.1'' 0 Map.empty = (True, [''10.0.0.1'' \<mapsto> [0]])"
    by (simp add: check_rate_limit_def counts_of_def RATE_LIMIT_def Let_def)
  then show ?thesis
    using one two by (simp add: generate_cards_def numeral_2_eq_2)
qed

theorem fixed_month_cvv_verbatim_witness:
  "fst (generate_cards ''10.0.0.1'' 0 2026 (\<lambda>k. 7 * k + 3) (lit ''453201'') 2
          (lit ''13'') (lit ''30'') (lit ''99999'') (Map.empty, 0))
     = Http200 [lit ''4532013074185291|13|2030|99999'', lit ''4532016307418520|13|2030|99999''] \<and>
   \<not> lower_is (lit ''13'') (lit ''rnd'') \<and> \<not> lower_is (lit ''99999'') (lit ''rnd'') \<and>
   (\<exists>num m y v.
      lit ''4532016307418520|13|2030|99999'' = num @ lit ''|'' @ m @ lit ''|'' @ y @ lit ''|'' @ v \<and>
      list_all is_decimal num \<and> m = zfill 2 (lit ''13'') \<and> v = zfill 3 (lit ''99999''))"
proof -
  let ?run = "generate_cards ''10.0.0.1'' 0 2026 (\<lambda>k. 7 * k + 3) (lit ''453201'') 2
                (lit ''13'') (lit ''30'') (lit ''99999'') (Map.empty, 0)"
  let ?second = "lit ''4532016307418520|13|2030|99999''"
  let ?cards = "[lit ''4532013074185291|13|2030|99999'', ?second]"
  have h: "?run = (Http200 ?cards, snd ?run)"
    using gen_fixed by (simp add: prod_eq_iff)
  have m: "\<not> lower_is (lit ''13'') (lit ''rnd'')"
    and c: "\<not> lower_is (lit ''99999'') (lit ''rnd'')"
    by (simp_all add: lower_is_def)
  have mem: "?second \<in> set ?cards"
    by simp
  from bspec [OF conjunct1 [OF fixed_month_cvv_verbatim [OF h]] mem] m c
  have "\<exists>num m y v.
      ?second = num @ lit ''|'' @ m @ lit ''|'' @ y @ lit ''|'' @ v \<and>
      list_all is_decimal num \<and> m = zfill 2 (lit ''13'') \<and> v = zfill 3 (lit ''99999'')"
    by blast
  with gen_fixed m c show ?thesis by (intro conjI)
qed

section \<open>Generated numbers and the Luhn check\<close>

text \<open>
  For a pattern of at most 15 characters, or of odd length, every number of a successful
  response is a string of digits that passes \<open>luhn_check\<close>.
\<close>

lemma generated_numbers_pass_luhn:
  assumes run: "generate_cards ip now cy rng pat quantity m y v st = (Http200 cards, st')"
      and len: "length pat \<le> 15 \<or> odd (length pat)"
  shows "\<forall>line \<in> set cards. \<exists>num rest.
           line = num @ lit ''|'' @ rest \<and> list_all is_decimal num \<and> luhn_check num"
proof
  fix line assume "line \<in> set cards"
  with generate_cards_lines [OF run] obtain j j' where
    one: "gen_one rng cy pat m y v j = Some (line, j')" by blast
  then have pat: "\<forall>c \<in> set pat. is_decimal c \<or> lower_is [c] (lit ''x'')"
    using gen_one_Some_iff [of rng cy pat m y v j] by blast
  from gen_one_fields [OF one] obtain num k1 rest where
    num: "gen_card_num rng pat j = Some (num, k1)" and line: "line = num @ lit ''|'' @ rest"
    by blast
  from gen_card_num_valid [OF pat len, of rng j] num
  have "list_all is_decimal num \<and> luhn_check num" by auto
  with line
  show "\<exists>num rest. line = num @ lit ''|'' @ rest \<and> list_all is_decimal num \<and> luhn_check num"
    by blast
qed

text \<open>
  C1: a pattern of 16 digits is accepted and nothing is drawn for it; the generator
  appends the check digit computed with parity 0 and returns a number of 17 digits, which
  \<open>luhn_check\<close>, taking the parity from the length, rejects.
\<close>

theorem generated_number_fails_luhn:
  "fst (generate_cards ''10.0.0.1'' 0 2026 rng (lit ''4532015112830366'') 1
          (lit ''12'') (lit ''2030'') (lit ''123'') (Map.empty, k))
     = Http200 [lit ''45320151128303660|12|2030|123''] \<and>
   luhn_check (lit ''45320151128303660'') = False"
proof -
  let ?pat = "lit ''4532015112830366''"
  have r: "replace_x rng [] ?pat k = (?pat, k)"
    by (simp add: lower_is_def ascii_lower_def)
  have f: "fill15 rng ?pat k = (?pat, k)"
    by (subst fill15.simps) simp
  have t: "check_total 0 0 ?pat = Some 50"
    by (simp add: py_int_single is_decimal_ascii digit_val_ascii)
  have s: "str_int ((50 * 9) mod 10) = lit ''0''"
    by (simp add: str_int_def str_nat.simps)
  have num: "gen_card_num rng ?pat k = Some (lit ''45320151128303660'', k)"
    by (simp only: gen_card_num_def r f t s prod.case option.case) simp
  have one: "gen_one rng 2026 ?pat (lit ''12'') (lit ''2030'') (lit ''123'') k
               = Some (lit ''45320151128303660|12|2030|123'', k)"
    using num
    by (simp add: gen_one_def gen_month_def gen_year_def gen_cvv_def lower_is_def
        ascii_lower_def zfill_def)
  have "check_rate_limit ''10.0.0.1'' 0 Map.empty = (True, [''10.0.0.1'' \<mapsto> [0]])"
    by (simp add: check_rate_limit_def counts_of_def RATE_LIMIT_def Let_def)
  with one
  have "fst (generate_cards ''10.0.0.1'' 0 2026 rng ?pat 1 (lit ''12'') (lit ''2030'')
          (lit ''123'') (Map.empty, k)) = Http200 [lit ''45320151128303660|12|2030|123'']"
    by (simp add: generate_cards_def)
  moreover have "luhn_check (lit ''45320151128303660'') = False"
    by (simp add: luhn_check_def py_int_single is_decimal_ascii digit_val_ascii)
  ultimately show ?thesis by simp
qed

end
